theory Spec2Isabelle
  imports Main
begin

section \<open>certparse: the certdata.txt scanner of gwatts/rootcerts\<close>

text \<open>
  A shallow embedding of package \<open>certparse\<close>: the line tokenizer (\<open>ScanValue\<close>), the
  object assembler (\<open>ScanObject\<close>, \<open>ReadObjects\<close>), the trust resolver (\<open>findTrusted\<close>)
  and the certificate extractor (\<open>ReadTrustedCerts\<close>).

  Go strings are byte sequences: \<^typ>\<open>string\<close>. The \<open>bufio.Scanner\<close> held by a
  \<open>MozScanner\<close> is modelled by the list of lines it still has to deliver; \<open>Scan\<close> fails
  exactly when that list is empty. A Go run-time panic is the left summand of the result.

  The scanner is created with its default buffer, so it delivers a line only if the line
  is shorter than \<open>bufio.MaxScanTokenSize\<close>, 65536 bytes; on a longer line \<open>Scan\<close> fails
  before the end of the stream, with an error that the package never reads. The list of
  lines is therefore what the scanner does on a stream whose lines are all below that
  size. A property that decodes lines of arbitrary content bounds their length by
  \<open>MaxScanTokenSize\<close>.
\<close>

subsection \<open>Data model\<close>

datatype panic = SliceBoundsOutOfRange

datatype error =
    ErrBeginDataNotFound
  | ErrUnexpectedEOF
  | ErrSyntax
  | ErrRange
  | ErrUnknownTrustLevel string

record MozValue =
  mv_Field :: string
  mv_Type :: string
  mv_Value :: string

record MozScanner =
  ms_s :: "string list"
  ms_ln :: int
  ms_skippedHeader :: bool
  ms_lastValue :: MozValue
  ms_valueError :: "error option"
  ms_lastObject :: "string \<rightharpoonup> string"
  ms_objectError :: "error option"

record TrustLevel =
  ServerTrustedDelegator :: bool
  EmailTrustedDelegator :: bool
  CodeTrustedDelegator :: bool

record 'c Cert =
  c_Label :: string
  c_Data :: string
  c_Trust :: TrustLevel
  c_Cert :: "'c option"

definition zeroValue :: MozValue where
  "zeroValue = \<lparr>mv_Field = [], mv_Type = [], mv_Value = []\<rparr>"

definition NewMozScanner :: "string list \<Rightarrow> MozScanner" where
  "NewMozScanner f =
     \<lparr>ms_s = f, ms_ln = 0, ms_skippedHeader = False, ms_lastValue = zeroValue,
      ms_valueError = None, ms_lastObject = Map.empty, ms_objectError = None\<rparr>"

subsection \<open>Go primitives and the standard-library functions the scanner calls\<close>

text \<open>The slice expression \<open>s[lo:hi]\<close> panics unless \<open>0 \<le> lo \<le> hi \<le> len(s)\<close>.\<close>

definition slice :: "string \<Rightarrow> int \<Rightarrow> int \<Rightarrow> panic + string" where
  "slice str lo hi =
     (if 0 \<le> lo \<and> lo \<le> hi \<and> hi \<le> int (length str)
      then Inr (take (nat (hi - lo)) (drop (nat lo) str))
      else Inl SliceBoundsOutOfRange)"

text \<open>\<open>bufio.MaxScanTokenSize\<close>: the size of the buffer of a default \<open>bufio.Scanner\<close>.\<close>

definition MaxScanTokenSize :: nat where
  "MaxScanTokenSize = 64 * 1024"

text \<open>\<open>strings.SplitN(s, sep, n)\<close> for a one-byte separator and \<open>n \<ge> 0\<close>.\<close>

fun SplitN :: "string \<Rightarrow> char \<Rightarrow> nat \<Rightarrow> string list" where
  "SplitN str sep 0 = []"
| "SplitN str sep (Suc 0) = [str]"
| "SplitN str sep (Suc (Suc n)) =
     (if sep \<in> set str
      then takeWhile (\<lambda>c. c \<noteq> sep) str # SplitN (tl (dropWhile (\<lambda>c. c \<noteq> sep) str)) sep (Suc n)
      else [str])"

definition HasPrefix :: "string \<Rightarrow> string \<Rightarrow> bool" where
  "HasPrefix str pre = (take (length pre) str = pre)"

fun Join :: "string list \<Rightarrow> string \<Rightarrow> string" where
  "Join [] sep = []"
| "Join [x] sep = x"
| "Join (x # y # ys) sep = x @ sep @ Join (y # ys) sep"

text \<open>
  \<open>strconv.ParseInt(s, base, bitSize)\<close> for \<open>2 \<le> base \<le> 36\<close> and \<open>1 \<le> bitSize \<le> 64\<close>
  (the scanner calls it with base 8 and bitSize 16): an optional sign, then digits below the
  base; letters count as digits from ten upwards.
\<close>

definition digitval :: "char \<Rightarrow> int option" where
  "digitval c =
     (let k = (of_char c :: int) in
      if 48 \<le> k \<and> k \<le> 57 then Some (k - 48)
      else if 97 \<le> k \<and> k \<le> 122 then Some (k - 97 + 10)
      else if 65 \<le> k \<and> k \<le> 90 then Some (k - 65 + 10)
      else None)"

fun ParseUint_loop :: "string \<Rightarrow> int \<Rightarrow> int \<Rightarrow> int \<Rightarrow> error + int" where
  "ParseUint_loop [] base maxVal n = Inr n"
| "ParseUint_loop (c # cs) base maxVal n =
     (case digitval c of
        None \<Rightarrow> Inl ErrSyntax
      | Some d \<Rightarrow>
          if d \<ge> base then Inl ErrSyntax
          else if n \<ge> (2 ^ 64 - 1) div base + 1 then Inl ErrRange
          else if n * base + d > maxVal then Inl ErrRange
          else ParseUint_loop cs base maxVal (n * base + d))"

definition ParseUint :: "string \<Rightarrow> int \<Rightarrow> nat \<Rightarrow> error + int" where
  "ParseUint str base bitSize =
     (if str = [] then Inl ErrSyntax else ParseUint_loop str base (2 ^ bitSize - 1) 0)"

definition ParseInt :: "string \<Rightarrow> int \<Rightarrow> nat \<Rightarrow> error + int" where
  "ParseInt s0 base bitSize =
     (if s0 = [] then Inl ErrSyntax
      else
        let neg = (hd s0 = CHR ''-'');
            str = (if hd s0 = CHR ''+'' \<or> hd s0 = CHR ''-'' then tl s0 else s0);
            cutoff = (2 :: int) ^ (bitSize - 1)
        in case ParseUint str base bitSize of
             Inl ErrRange \<Rightarrow> Inl ErrRange
           | Inl e \<Rightarrow> Inl ErrSyntax
           | Inr un \<Rightarrow>
               if \<not> neg \<and> un \<ge> cutoff then Inl ErrRange
               else if neg \<and> un > cutoff then Inl ErrRange
               else Inr (if neg then - un else un))"

text \<open>
  \<open>strconv.Unquote\<close> rejects every string shorter than two bytes; what it does with a
  longer one (quote matching, escape sequences, UTF-8 validation) is the parameter \<open>unq\<close>
  of the model, \<open>None\<close> standing for an error.
\<close>

definition Unquote :: "(string \<Rightarrow> string option) \<Rightarrow> string \<Rightarrow> string option" where
  "Unquote unq str = (if length str < 2 then None else unq str)"

subsection \<open>The line tokenizer\<close>

fun skipHeader_loop :: "string list \<Rightarrow> int \<Rightarrow> bool \<times> string list \<times> int" where
  "skipHeader_loop [] n = (False, [], n)"
| "skipHeader_loop (line # rest) n =
     (if line = ''BEGINDATA'' then (True, rest, n + 1) else skipHeader_loop rest (n + 1))"

definition skipHeader :: "MozScanner \<Rightarrow> error option \<times> MozScanner" where
  "skipHeader ms =
     (case skipHeader_loop (ms_s ms) (ms_ln ms) of
        (True, rest, n) \<Rightarrow> (None, ms\<lparr>ms_s := rest, ms_ln := n, ms_skippedHeader := True\<rparr>)
      | (False, rest, n) \<Rightarrow> (Some ErrBeginDataNotFound, ms\<lparr>ms_s := rest, ms_ln := n\<rparr>))"

text \<open>
  \<open>readMultiline\<close>: the callback \<open>process\<close> appends to a variable of the enclosing function;
  here it takes that accumulator and returns it with its error.
\<close>

fun readMultiline ::
  "(string \<Rightarrow> 'v \<Rightarrow> panic + (error option \<times> 'v)) \<Rightarrow> 'v \<Rightarrow> string list \<Rightarrow> int
     \<Rightarrow> panic + (error option \<times> 'v \<times> string list \<times> int)" where
  "readMultiline process v [] n = Inr (Some ErrUnexpectedEOF, v, [], n)"
| "readMultiline process v (line # rest) n =
     (if line = ''END'' then Inr (None, v, rest, n + 1)
      else case process line v of
             Inl p \<Rightarrow> Inl p
           | Inr (Some err, v') \<Rightarrow> Inr (Some err, v', rest, n + 1)
           | Inr (None, v') \<Rightarrow> readMultiline process v' rest (n + 1))"

text \<open>
  Both readers call \<open>readMultiline\<close> as a statement, so the error it returns is dropped,
  and return a nil error.
\<close>

definition readMultilineGeneric ::
  "string list \<Rightarrow> int \<Rightarrow> panic + (string \<times> error option \<times> string list \<times> int)" where
  "readMultilineGeneric lns n =
     (case readMultiline (\<lambda>line v. Inr (None, v @ [line])) [] lns n of
        Inl p \<Rightarrow> Inl p
      | Inr (err, v, rest, n') \<Rightarrow> Inr (Join v [CHR 0x0A], None, rest, n'))"

function octal_process :: "nat \<Rightarrow> string \<Rightarrow> string \<Rightarrow> panic + (error option \<times> string)" where
  "octal_process i line v =
     (if i < length line then
        (case slice line (int i + 1) (int i + 4) of
           Inl p \<Rightarrow> Inl p
         | Inr grp \<Rightarrow>
             (case ParseInt grp 8 16 of
                Inl err \<Rightarrow> Inr (Some err, v)
              | Inr n \<Rightarrow> octal_process (i + 4) line (v @ [char_of n])))
      else Inr (None, v))"
  by pat_completeness auto
termination
  by (relation "measure (\<lambda>(i, line, v). length line - i)") auto

declare octal_process.simps [simp del]

definition readMultilineOctal ::
  "string list \<Rightarrow> int \<Rightarrow> panic + (string \<times> error option \<times> string list \<times> int)" where
  "readMultilineOctal lns n =
     (case readMultiline (octal_process 0) [] lns n of
        Inl p \<Rightarrow> Inl p
      | Inr (err, v, rest, n') \<Rightarrow> Inr (v, None, rest, n'))"

datatype scan_result = Token MozValue | Failed error | AtEOF

fun ScanValue_loop ::
  "(string \<Rightarrow> string option) \<Rightarrow> string list \<Rightarrow> int \<Rightarrow> panic + (scan_result \<times> string list \<times> int)" where
  "ScanValue_loop unq [] n = Inr (AtEOF, [], n)"
| "ScanValue_loop unq (line # rest) n =
     (if length line = 0 \<or> hd line = CHR ''#'' then ScanValue_loop unq rest (n + 1)
      else if length (SplitN line CHR '' '' 3) < 2 then ScanValue_loop unq rest (n + 1)
      else
        let parts = SplitN line CHR '' '' 3; field = parts ! 0; ftype = parts ! 1 in
        if ftype = ''UTF8'' \<and> length parts > 2 then
          (case Unquote unq (parts ! 2) of
             Some val \<Rightarrow>
               Inr (Token \<lparr>mv_Field = field, mv_Type = ftype, mv_Value = val\<rparr>, rest, n + 1)
           | None \<Rightarrow>
               (case slice (parts ! 2) 1 (int (length (parts ! 2)) - 1) of
                  Inl p \<Rightarrow> Inl p
                | Inr val \<Rightarrow>
                    Inr (Token \<lparr>mv_Field = field, mv_Type = ftype, mv_Value = val\<rparr>, rest, n + 1)))
        else if HasPrefix ftype ''MULTILINE'' then
          (case slice ftype (int (length ''MULTILINE_'')) (int (length ftype)) of
             Inl p \<Rightarrow> Inl p
           | Inr mltype \<Rightarrow>
               (case (if mltype = ''OCTAL'' then readMultilineOctal rest (n + 1)
                      else readMultilineGeneric rest (n + 1)) of
                  Inl p \<Rightarrow> Inl p
                | Inr (val, Some err, rest', n') \<Rightarrow> Inr (Failed err, rest', n')
                | Inr (val, None, rest', n') \<Rightarrow>
                    Inr (Token \<lparr>mv_Field = field, mv_Type = ftype,
                                mv_Value = (if mltype = ''OCTAL'' then val else [])\<rparr>, rest', n')))
        else
          Inr (Token \<lparr>mv_Field = field, mv_Type = ftype,
                      mv_Value = (if length parts > 2 then parts ! 2 else [])\<rparr>, rest, n + 1))"

definition ScanValue ::
  "(string \<Rightarrow> string option) \<Rightarrow> MozScanner \<Rightarrow> panic + (bool \<times> MozScanner)" where
  "ScanValue unq ms0 =
     (case (if \<not> ms_skippedHeader ms0 then skipHeader (ms0\<lparr>ms_valueError := None\<rparr>)
            else (None, ms0\<lparr>ms_valueError := None\<rparr>)) of
        (Some err, ms) \<Rightarrow> Inr (False, ms\<lparr>ms_valueError := Some err\<rparr>)
      | (None, ms) \<Rightarrow>
          (case ScanValue_loop unq (ms_s ms) (ms_ln ms) of
             Inl p \<Rightarrow> Inl p
           | Inr (Token val, rest, n) \<Rightarrow> Inr (True, ms\<lparr>ms_s := rest, ms_ln := n, ms_lastValue := val\<rparr>)
           | Inr (Failed err, rest, n) \<Rightarrow>
               Inr (False, ms\<lparr>ms_s := rest, ms_ln := n, ms_valueError := Some err\<rparr>)
           | Inr (AtEOF, rest, n) \<Rightarrow> Inr (False, ms\<lparr>ms_s := rest, ms_ln := n\<rparr>)))"

subsection \<open>The object assembler\<close>

text \<open>A call of \<open>ScanValue\<close> that returns true has consumed at least one line.\<close>

lemma skipHeader_loop_length:
  "skipHeader_loop lns n = (b, rest, n') \<Longrightarrow> length rest \<le> length lns"
proof (induction lns arbitrary: n)
  case Nil
  then show ?case by simp
next
  case (Cons line lns)
  show ?case
  proof (cases "line = ''BEGINDATA''")
    case True
    with Cons.prems show ?thesis by simp
  next
    case False
    with Cons.prems have "skipHeader_loop lns (n + 1) = (b, rest, n')" by simp
    from Cons.IH [OF this] show ?thesis by simp
  qed
qed

lemma readMultiline_length:
  "readMultiline process v lns n = Inr (err, v', rest, n') \<Longrightarrow> length rest \<le> length lns"
proof (induction lns arbitrary: v n)
  case Nil
  then show ?case by simp
next
  case (Cons line lns)
  then show ?case
    by (fastforce split: if_splits sum.splits prod.splits option.splits)
qed

lemma readMultilineOctal_length:
  "readMultilineOctal lns n = Inr (val, err, rest, n') \<Longrightarrow> length rest \<le> length lns"
  by (auto simp: readMultilineOctal_def split: sum.splits prod.splits dest: readMultiline_length)

lemma readMultilineGeneric_length:
  "readMultilineGeneric lns n = Inr (val, err, rest, n') \<Longrightarrow> length rest \<le> length lns"
  by (auto simp: readMultilineGeneric_def split: sum.splits prod.splits dest: readMultiline_length)

lemma ScanValue_loop_length:
  "ScanValue_loop unq lns n = Inr (Token val, rest, n') \<Longrightarrow> length rest < length lns"
proof (induction lns arbitrary: n)
  case Nil
  then show ?case by simp
next
  case (Cons line lns)
  show ?case
  proof (cases "length line = 0 \<or> hd line = CHR ''#'' \<or> length (SplitN line CHR '' '' 3) < 2")
    case True
    then have "ScanValue_loop unq lns (n + 1) = Inr (Token val, rest, n')"
      using Cons.prems by (auto split: if_splits)
    from Cons.IH [OF this] show ?thesis by simp
  next
    case False
    then show ?thesis
      using Cons.prems
      by (auto simp: Let_def split: if_splits option.splits sum.splits prod.splits
          dest!: readMultilineOctal_length readMultilineGeneric_length)
  qed
qed

lemma ScanValue_length:
  assumes "ScanValue unq ms = Inr (True, ms')"
  shows "length (ms_s ms') < length (ms_s ms)"
proof -
  obtain e ms1 where h: "(if \<not> ms_skippedHeader ms then skipHeader (ms\<lparr>ms_valueError := None\<rparr>)
            else (None, ms\<lparr>ms_valueError := None\<rparr>)) = (e, ms1)"
    by (cases "(if \<not> ms_skippedHeader ms then skipHeader (ms\<lparr>ms_valueError := None\<rparr>)
            else (None, ms\<lparr>ms_valueError := None\<rparr>))") auto
  then have le: "length (ms_s ms1) \<le> length (ms_s ms)"
    by (auto simp: skipHeader_def split: if_splits prod.splits bool.splits
        dest: skipHeader_loop_length)
  from assms h obtain val rest n where
    "ScanValue_loop unq (ms_s ms1) (ms_ln ms1) = Inr (Token val, rest, n)" and "ms_s ms' = rest"
    by (auto simp: ScanValue_def split: option.splits sum.splits prod.splits scan_result.splits)
  with ScanValue_loop_length [of unq "ms_s ms1" "ms_ln ms1" val rest n] le show ?thesis
    by simp
qed

text \<open>The first loop of \<open>ScanObject\<close>: scan until the current value is a \<open>CKA_CLASS\<close> field.\<close>

function ScanObject_seek ::
  "(string \<Rightarrow> string option) \<Rightarrow> MozValue \<Rightarrow> MozScanner \<Rightarrow> panic + (MozValue \<times> MozScanner)" where
  "ScanObject_seek unq val ms =
     (if mv_Field val \<noteq> ''CKA_CLASS'' then
        (case ScanValue unq ms of
           Inl p \<Rightarrow> Inl p
         | Inr (True, ms') \<Rightarrow> ScanObject_seek unq (ms_lastValue ms') ms'
         | Inr (False, ms') \<Rightarrow> Inr (val, ms'))
      else Inr (val, ms))"
  by pat_completeness auto
termination
  by (relation "measure (\<lambda>(unq, val, ms). length (ms_s ms))") (auto dest: ScanValue_length)

declare ScanObject_seek.simps [simp del]

text \<open>The second loop: fold values into the object until the next \<open>CKA_CLASS\<close> field.\<close>

function ScanObject_fold ::
  "(string \<Rightarrow> string option) \<Rightarrow> (string \<rightharpoonup> string) \<Rightarrow> MozScanner \<Rightarrow> panic + (bool \<times> MozScanner)" where
  "ScanObject_fold unq object ms =
     (case ScanValue unq ms of
        Inl p \<Rightarrow> Inl p
      | Inr (True, ms') \<Rightarrow>
          (if mv_Field (ms_lastValue ms') = ''CKA_CLASS''
           then Inr (True, ms'\<lparr>ms_lastObject := object\<rparr>)
           else ScanObject_fold unq
                  (object(mv_Field (ms_lastValue ms') \<mapsto> mv_Value (ms_lastValue ms'))) ms')
      | Inr (False, ms') \<Rightarrow>
          (case ms_valueError ms' of
             Some err \<Rightarrow> Inr (False, ms'\<lparr>ms_objectError := Some err\<rparr>)
           | None \<Rightarrow> Inr (True, ms'\<lparr>ms_lastObject := object\<rparr>)))"
  by pat_completeness auto
termination
  by (relation "measure (\<lambda>(unq, object, ms). length (ms_s ms))") (auto dest: ScanValue_length)

declare ScanObject_fold.simps [simp del]

definition ScanObject ::
  "(string \<Rightarrow> string option) \<Rightarrow> MozScanner \<Rightarrow> panic + (bool \<times> MozScanner)" where
  "ScanObject unq ms0 =
     (case ScanObject_seek unq (ms_lastValue ms0) (ms0\<lparr>ms_objectError := None\<rparr>) of
        Inl p \<Rightarrow> Inl p
      | Inr (val, ms) \<Rightarrow>
          (case ms_valueError ms of
             Some err \<Rightarrow> Inr (False, ms\<lparr>ms_objectError := ms_valueError ms\<rparr>)
           | None \<Rightarrow>
               if mv_Field val \<noteq> ''CKA_CLASS'' then Inr (False, ms)
               else ScanObject_fold unq [mv_Field val \<mapsto> mv_Value val] ms))"

text \<open>
  \<open>ReadObjects\<close> calls \<open>ScanObject\<close> until it returns false. Nothing bounds the number of
  calls, so the loop is a partial function: \<open>None\<close> is a run that never returns.
\<close>

partial_function (option) ReadObjects_loop ::
  "(string \<Rightarrow> string option) \<Rightarrow> MozScanner \<Rightarrow> (string \<rightharpoonup> string) list
     \<Rightarrow> (panic + ((string \<rightharpoonup> string) list \<times> MozScanner)) option" where
  "ReadObjects_loop unq scanner objects =
     (case ScanObject unq scanner of
        Inl p \<Rightarrow> Some (Inl p)
      | Inr (ok, scanner') \<Rightarrow>
          if ok then ReadObjects_loop unq scanner' (objects @ [ms_lastObject scanner'])
          else Some (Inr (objects, scanner')))"

definition ReadObjects ::
  "(string \<Rightarrow> string option) \<Rightarrow> string list \<Rightarrow> (panic + (error + (string \<rightharpoonup> string) list)) option" where
  "ReadObjects unq f =
     (case ReadObjects_loop unq (NewMozScanner f) [] of
        None \<Rightarrow> None
      | Some (Inl p) \<Rightarrow> Some (Inl p)
      | Some (Inr (objects, scanner)) \<Rightarrow>
          (case ms_objectError scanner of
             Some err \<Rightarrow> Some (Inr (Inl err))
           | None \<Rightarrow> Some (Inr (Inr objects))))"

subsection \<open>The trust resolver and the certificate extractor\<close>

text \<open>Reading a Go map at a missing key gives the empty string.\<close>

definition lookup :: "(string \<rightharpoonup> string) \<Rightarrow> string \<Rightarrow> string" where
  "lookup obj k = (case obj k of None \<Rightarrow> [] | Some v \<Rightarrow> v)"

definition knownTrustLevels :: "string list" where
  "knownTrustLevels =
     [''CKT_NSS_TRUSTED_DELEGATOR'', ''CKT_NSS_MUST_VERIFY_TRUST'', ''CKT_NSS_NOT_TRUSTED'']"

fun contains :: "string \<Rightarrow> string list \<Rightarrow> bool" where
  "contains val [] = False"
| "contains val (v # vs) = (if v = val then True else contains val vs)"

fun findTrusted_loop ::
  "(string \<rightharpoonup> string) list \<Rightarrow> (string \<rightharpoonup> TrustLevel) \<Rightarrow> error + (string \<rightharpoonup> TrustLevel)" where
  "findTrusted_loop [] trusted = Inr trusted"
| "findTrusted_loop (obj # objects) trusted =
     (if lookup obj ''CKA_CLASS'' \<noteq> ''CKO_NSS_TRUST'' then findTrusted_loop objects trusted
      else
        let serverTrust = lookup obj ''CKA_TRUST_SERVER_AUTH'';
            emailTrust = lookup obj ''CKA_TRUST_EMAIL_PROTECTION'';
            codeTrust = lookup obj ''CKA_TRUST_CODE_SIGNING''
        in
        if \<not> contains serverTrust knownTrustLevels then Inl (ErrUnknownTrustLevel serverTrust)
        else if \<not> contains emailTrust knownTrustLevels then Inl (ErrUnknownTrustLevel serverTrust)
        else if \<not> contains codeTrust knownTrustLevels then Inl (ErrUnknownTrustLevel serverTrust)
        else if serverTrust = ''CKT_NSS_NOT_TRUSTED'' \<or> emailTrust = ''CKT_NSS_NOT_TRUSTED''
                \<or> codeTrust = ''CKT_NSS_NOT_TRUSTED''
        then findTrusted_loop objects trusted
        else
          let trust = \<lparr>ServerTrustedDelegator = (serverTrust = ''CKT_NSS_TRUSTED_DELEGATOR''),
                       EmailTrustedDelegator = (emailTrust = ''CKT_NSS_TRUSTED_DELEGATOR''),
                       CodeTrustedDelegator = (codeTrust = ''CKT_NSS_TRUSTED_DELEGATOR'')\<rparr>
          in
          if ServerTrustedDelegator trust \<or> EmailTrustedDelegator trust \<or> CodeTrustedDelegator trust
          then findTrusted_loop objects (trusted(lookup obj ''CKA_LABEL'' \<mapsto> trust))
          else findTrusted_loop objects trusted)"

definition findTrusted ::
  "(string \<rightharpoonup> string) list \<Rightarrow> error + (string \<rightharpoonup> TrustLevel)" where
  "findTrusted objects = findTrusted_loop objects Map.empty"

text \<open>
  \<open>x509.ParseCertificate\<close> is the parameter \<open>ParseCertificate\<close>: it returns an error or a
  certificate, and \<open>ReadTrustedCerts\<close> stores a pointer to the certificate it returned.
\<close>

fun ReadTrustedCerts_loop ::
  "(string \<Rightarrow> 'e + 'c) \<Rightarrow> (string \<rightharpoonup> TrustLevel) \<Rightarrow> (string \<rightharpoonup> string) list
     \<Rightarrow> 'c Cert list \<Rightarrow> 'c Cert list" where
  "ReadTrustedCerts_loop ParseCertificate trusted [] certs = certs"
| "ReadTrustedCerts_loop ParseCertificate trusted (obj # objects) certs =
     (if lookup obj ''CKA_CLASS'' \<noteq> ''CKO_CERTIFICATE''
      then ReadTrustedCerts_loop ParseCertificate trusted objects certs
      else case trusted (lookup obj ''CKA_LABEL'') of
             None \<Rightarrow> ReadTrustedCerts_loop ParseCertificate trusted objects certs
           | Some trust \<Rightarrow>
               (case ParseCertificate (lookup obj ''CKA_VALUE'') of
                  Inl err \<Rightarrow> ReadTrustedCerts_loop ParseCertificate trusted objects certs
                | Inr cert \<Rightarrow>
                    ReadTrustedCerts_loop ParseCertificate trusted objects
                      (certs @ [\<lparr>c_Label = lookup obj ''CKA_LABEL'',
                                 c_Data = lookup obj ''CKA_VALUE'',
                                 c_Trust = trust,
                                 c_Cert = Some cert\<rparr>])))"

definition ReadTrustedCerts ::
  "(string \<Rightarrow> string option) \<Rightarrow> (string \<Rightarrow> 'e + 'c) \<Rightarrow> string list
     \<Rightarrow> (panic + (error + 'c Cert list)) option" where
  "ReadTrustedCerts unq ParseCertificate f =
     (case ReadObjects unq f of
        None \<Rightarrow> None
      | Some (Inl p) \<Rightarrow> Some (Inl p)
      | Some (Inr (Inl err)) \<Rightarrow> Some (Inr (Inl err))
      | Some (Inr (Inr objects)) \<Rightarrow>
          (case findTrusted objects of
             Inl err \<Rightarrow> Some (Inr (Inl err))
           | Inr trusted \<Rightarrow>
               Some (Inr (Inr (ReadTrustedCerts_loop ParseCertificate trusted objects [])))))"

section \<open>Notions used to state the properties\<close>

text \<open>
  Modelled from the spec: the repository only decodes octal blocks and has no encoder. The
  textual form of a byte sequence is, in the spec's words, a sequence of 4-character groups,
  a backslash and three octal digits for each byte, with no separators.
\<close>

definition octal_digit :: "nat \<Rightarrow> char" where
  "octal_digit d = char_of (48 + d)"

definition encode_byte :: "char \<Rightarrow> string" where
  "encode_byte b =
     (let n = (of_char b :: nat) in
      [CHR 0x5C, octal_digit (n div 64), octal_digit (n div 8 mod 8), octal_digit (n mod 8)])"

definition encode_octal :: "string \<Rightarrow> string" where
  "encode_octal bs = concat (map encode_byte bs)"

text \<open>A byte sequence cut into the pieces of \<open>k\<close> bytes that go on the lines of a block.\<close>

function chunks_of :: "nat \<Rightarrow> 'a list \<Rightarrow> 'a list list" where
  "chunks_of k xs = (if k = 0 \<or> xs = [] then [] else take k xs # chunks_of k (drop k xs))"
  by pat_completeness auto
termination
  by (relation "measure (\<lambda>(k, xs). length xs)") auto

declare chunks_of.simps [simp del]

text \<open>A caller that calls \<open>ScanValue\<close> \<open>k\<close> times in a row and records what it returned.\<close>

fun ScanValue_times ::
  "(string \<Rightarrow> string option) \<Rightarrow> nat \<Rightarrow> MozScanner \<Rightarrow> panic + (bool list \<times> MozScanner)" where
  "ScanValue_times unq 0 ms = Inr ([], ms)"
| "ScanValue_times unq (Suc k) ms =
     (case ScanValue unq ms of
        Inl p \<Rightarrow> Inl p
      | Inr (b, ms') \<Rightarrow>
          (case ScanValue_times unq k ms' of
             Inl p \<Rightarrow> Inl p
           | Inr (bs, ms'') \<Rightarrow> Inr (b # bs, ms'')))"

text \<open>The scanner after it has read \<open>n\<close> lines without finding \<open>BEGINDATA\<close>.\<close>

definition header_missing :: "int \<Rightarrow> MozScanner" where
  "header_missing n =
     \<lparr>ms_s = [], ms_ln = n, ms_skippedHeader = False, ms_lastValue = zeroValue,
      ms_valueError = Some ErrBeginDataNotFound, ms_lastObject = Map.empty,
      ms_objectError = None\<rparr>"

text \<open>
  The scanner at the end of the stream \<open>BEGINDATA / CKA_CLASS CK_OBJECT_CLASS CKO_CERTIFICATE\<close>,
  once \<open>ScanObject\<close> has returned the object made of that single field.
\<close>

definition lone_class_input :: "string list" where
  "lone_class_input = [''BEGINDATA'', ''CKA_CLASS CK_OBJECT_CLASS CKO_CERTIFICATE'']"

definition lone_class_state :: MozScanner where
  "lone_class_state =
     \<lparr>ms_s = [], ms_ln = 2, ms_skippedHeader = True,
      ms_lastValue = \<lparr>mv_Field = ''CKA_CLASS'', mv_Type = ''CK_OBJECT_CLASS'',
                      mv_Value = ''CKO_CERTIFICATE''\<rparr>,
      ms_valueError = None, ms_lastObject = [''CKA_CLASS'' \<mapsto> ''CKO_CERTIFICATE''],
      ms_objectError = None\<rparr>"

text \<open>One iteration of the loop of \<open>findTrusted\<close>.\<close>

definition trust_step ::
  "(string \<rightharpoonup> string) \<Rightarrow> (string \<rightharpoonup> TrustLevel) \<Rightarrow> error + (string \<rightharpoonup> TrustLevel)" where
  "trust_step obj trusted = findTrusted_loop [obj] trusted"

definition has_purpose :: "TrustLevel \<Rightarrow> bool" where
  "has_purpose t =
     (ServerTrustedDelegator t \<or> EmailTrustedDelegator t \<or> CodeTrustedDelegator t)"

text \<open>
  The record \<open>c\<close> comes from a certificate object of the list: its label and data are the
  object's, its certificate is what \<open>ParseCertificate\<close> returned for the data, and its trust
  is the trust map's entry for the label.
\<close>

definition extracted ::
  "(string \<Rightarrow> 'e + 'c) \<Rightarrow> (string \<rightharpoonup> TrustLevel) \<Rightarrow> (string \<rightharpoonup> string) list \<Rightarrow> 'c Cert \<Rightarrow> bool" where
  "extracted ParseCertificate trusted objects c =
     (\<exists>obj cert. obj \<in> set objects \<and> lookup obj ''CKA_CLASS'' = ''CKO_CERTIFICATE''
        \<and> c_Label c = lookup obj ''CKA_LABEL'' \<and> c_Data c = lookup obj ''CKA_VALUE''
        \<and> ParseCertificate (lookup obj ''CKA_VALUE'') = Inr cert \<and> c_Cert c = Some cert
        \<and> trusted (lookup obj ''CKA_LABEL'') = Some (c_Trust c))"

text \<open>
  A small certdata stream: a certificate labelled \<open>x\<close> with the one-byte value \<open>A\<close>, and
  its trust declaration. \<open>sample_parse\<close> accepts exactly that value.
\<close>

definition sample_input :: "string list" where
  "sample_input =
     [''# preamble'', ''BEGINDATA'',
      ''CKA_CLASS CK_OBJECT_CLASS CKO_CERTIFICATE'',
      ''CKA_LABEL UTF8 \"x\"'',
      ''CKA_VALUE MULTILINE_OCTAL'',
      CHR 0x5C # ''101'',
      ''END'',
      ''CKA_CLASS CK_OBJECT_CLASS CKO_NSS_TRUST'',
      ''CKA_LABEL UTF8 \"x\"'',
      ''CKA_TRUST_SERVER_AUTH CK_TRUST CKT_NSS_TRUSTED_DELEGATOR'',
      ''CKA_TRUST_EMAIL_PROTECTION CK_TRUST CKT_NSS_MUST_VERIFY_TRUST'',
      ''CKA_TRUST_CODE_SIGNING CK_TRUST CKT_NSS_MUST_VERIFY_TRUST'']"

definition sample_cert_object :: "string \<rightharpoonup> string" where
  "sample_cert_object =
     [''CKA_CLASS'' \<mapsto> ''CKO_CERTIFICATE'', ''CKA_LABEL'' \<mapsto> ''x'', ''CKA_VALUE'' \<mapsto> ''A'']"

definition sample_trust_object :: "string \<rightharpoonup> string" where
  "sample_trust_object =
     [''CKA_CLASS'' \<mapsto> ''CKO_NSS_TRUST'', ''CKA_LABEL'' \<mapsto> ''x'',
      ''CKA_TRUST_SERVER_AUTH'' \<mapsto> ''CKT_NSS_TRUSTED_DELEGATOR'',
      ''CKA_TRUST_EMAIL_PROTECTION'' \<mapsto> ''CKT_NSS_MUST_VERIFY_TRUST'',
      ''CKA_TRUST_CODE_SIGNING'' \<mapsto> ''CKT_NSS_MUST_VERIFY_TRUST'']"

definition sample_parse :: "string \<Rightarrow> unit + nat" where
  "sample_parse der = (if der = ''A'' then Inr 7 else Inl ())"

definition sample_trust :: TrustLevel where
  "sample_trust =
     \<lparr>ServerTrustedDelegator = True, EmailTrustedDelegator = False,
      CodeTrustedDelegator = False\<rparr>"

definition sample_cert :: "nat Cert" where
  "sample_cert = \<lparr>c_Label = ''x'', c_Data = ''A'', c_Trust = sample_trust, c_Cert = Some 7\<rparr>"

text \<open>
  A trust declaration that grants server trust and denies email trust, and one whose
  server field is outside the vocabulary, with a stream that holds it.
\<close>

definition vetoed_trust_object :: "string \<rightharpoonup> string" where
  "vetoed_trust_object =
     [''CKA_CLASS'' \<mapsto> ''CKO_NSS_TRUST'', ''CKA_LABEL'' \<mapsto> ''y'',
      ''CKA_TRUST_SERVER_AUTH'' \<mapsto> ''CKT_NSS_TRUSTED_DELEGATOR'',
      ''CKA_TRUST_EMAIL_PROTECTION'' \<mapsto> ''CKT_NSS_NOT_TRUSTED'',
      ''CKA_TRUST_CODE_SIGNING'' \<mapsto> ''CKT_NSS_MUST_VERIFY_TRUST'']"

definition unknown_trust_object :: "string \<rightharpoonup> string" where
  "unknown_trust_object =
     [''CKA_CLASS'' \<mapsto> ''CKO_NSS_TRUST'', ''CKA_LABEL'' \<mapsto> ''z'',
      ''CKA_TRUST_SERVER_AUTH'' \<mapsto> ''CKT_NSS_TRUSTED'',
      ''CKA_TRUST_EMAIL_PROTECTION'' \<mapsto> ''CKT_NSS_TRUSTED_DELEGATOR'',
      ''CKA_TRUST_CODE_SIGNING'' \<mapsto> ''CKT_NSS_TRUSTED_DELEGATOR'']"

definition unknown_trust_input :: "string list" where
  "unknown_trust_input =
     [''BEGINDATA'',
      ''CKA_CLASS CK_OBJECT_CLASS CKO_NSS_TRUST'',
      ''CKA_LABEL UTF8 \"z\"'',
      ''CKA_TRUST_SERVER_AUTH CK_TRUST CKT_NSS_TRUSTED'',
      ''CKA_TRUST_EMAIL_PROTECTION CK_TRUST CKT_NSS_TRUSTED_DELEGATOR'',
      ''CKA_TRUST_CODE_SIGNING CK_TRUST CKT_NSS_TRUSTED_DELEGATOR'']"

lemmas scan_eval =
  ScanValue_def NewMozScanner_def skipHeader_def Unquote_def slice_def HasPrefix_def
  readMultilineOctal_def readMultilineGeneric_def ParseInt_def ParseUint_def digitval_def
  eval_nat_numeral zeroValue_def Let_def char_of_def octal_process.simps

lemmas object_eval =
  scan_eval ScanObject_def ScanObject_seek.simps ScanObject_fold.simps
  ReadObjects_def ReadObjects_loop.simps

lemmas trust_eval = ReadTrustedCerts_def findTrusted_def lookup_def knownTrustLevels_def

section \<open>Properties of the tokenizer\<close>

subsection \<open>The error of \<open>readMultiline\<close> never reaches \<open>ScanValue\<close>\<close>

lemma readMultilineOctal_no_error:
  "readMultilineOctal lns n \<noteq> Inr (val, Some err, rest, n')"
  by (auto simp: readMultilineOctal_def split: sum.splits prod.splits)

lemma readMultilineGeneric_no_error:
  "readMultilineGeneric lns n \<noteq> Inr (val, Some err, rest, n')"
  by (auto simp: readMultilineGeneric_def split: sum.splits prod.splits)

lemma ScanValue_loop_never_fails:
  "ScanValue_loop unq lns n \<noteq> Inr (Failed err, rest, n')"
proof (induction lns arbitrary: n)
  case Nil
  show ?case by simp
next
  case (Cons line lns)
  show ?case
  proof (cases "length line = 0 \<or> hd line = CHR ''#'' \<or> length (SplitN line CHR '' '' 3) < 2")
    case True
    then have "ScanValue_loop unq (line # lns) n = ScanValue_loop unq lns (n + 1)"
      by auto
    with Cons.IH show ?thesis by simp
  next
    case False
    then show ?thesis
      using readMultilineOctal_no_error readMultilineGeneric_no_error
      by (auto simp: Let_def split: if_splits option.splits sum.splits prod.splits)
  qed
qed

text \<open>
  C4. An unterminated multiline value is meant to be a fatal scan error. On the stream
  \<open>BEGINDATA / F MULTILINE_OCTAL / \101\<close>, which ends without an \<open>END\<close> line, \<open>ScanValue\<close>
  returns true with a nil \<open>valueError\<close> and the token \<open>A\<close>; the same happens for a generic
  multiline value (\<open>BEGINDATA / F MULTILINE_UNKNOWN / abc\<close>).
\<close>

theorem ScanValue_unterminated_multiline_accepted:
  "ScanValue unq (NewMozScanner [''BEGINDATA'', ''F MULTILINE_OCTAL'', CHR 0x5C # ''101'']) =
     Inr (True,
       \<lparr>ms_s = [], ms_ln = 3, ms_skippedHeader = True,
        ms_lastValue = \<lparr>mv_Field = ''F'', mv_Type = ''MULTILINE_OCTAL'', mv_Value = ''A''\<rparr>,
        ms_valueError = None, ms_lastObject = Map.empty, ms_objectError = None\<rparr>)
   \<and> ScanValue unq (NewMozScanner [''BEGINDATA'', ''F MULTILINE_UNKNOWN'', ''abc'']) =
     Inr (True,
       \<lparr>ms_s = [], ms_ln = 3, ms_skippedHeader = True,
        ms_lastValue = \<lparr>mv_Field = ''F'', mv_Type = ''MULTILINE_UNKNOWN'', mv_Value = []\<rparr>,
        ms_valueError = None, ms_lastObject = Map.empty, ms_objectError = None\<rparr>)"
  by (simp add: scan_eval)

text \<open>
  C5. A malformed octal group is meant to be a fatal scan error. On the stream
  \<open>BEGINDATA / F MULTILINE_OCTAL / \101\9zz / END\<close> the group \<open>9zz\<close> is rejected by
  \<open>ParseInt\<close>, yet \<open>ScanValue\<close> returns true with a nil \<open>valueError\<close>; the token holds the
  bytes decoded before the bad group and the \<open>END\<close> line is left unread.
\<close>

theorem ScanValue_malformed_octal_accepted:
  "ParseInt ''9zz'' 8 16 = Inl ErrSyntax
   \<and> ScanValue unq
       (NewMozScanner
          [''BEGINDATA'', ''F MULTILINE_OCTAL'', CHR 0x5C # ''101'' @ CHR 0x5C # ''9zz'', ''END'']) =
     Inr (True,
       \<lparr>ms_s = [''END''], ms_ln = 3, ms_skippedHeader = True,
        ms_lastValue = \<lparr>mv_Field = ''F'', mv_Type = ''MULTILINE_OCTAL'', mv_Value = ''A''\<rparr>,
        ms_valueError = None, ms_lastObject = Map.empty, ms_objectError = None\<rparr>)"
  by (simp add: scan_eval)

subsection \<open>Slices out of range\<close>

text \<open>
  C9. \<open>ScanValue\<close> is meant to return normally on every stream. On a \<open>UTF8\<close> line whose
  inline region is shorter than two bytes (\<open>F UTF8 \<close> with nothing after the second space,
  or \<open>F UTF8 a\<close>), \<open>Unquote\<close> fails and the fallback slice \<open>parts[2][1:len(parts[2])-1]\<close>
  is out of range: \<open>ScanValue\<close> panics. So it does on the type tag \<open>MULTILINE\<close>, which is
  shorter than the prefix \<open>MULTILINE_\<close> that is cut off it.
\<close>

theorem ScanValue_short_UTF8_panics:
  "ScanValue unq (NewMozScanner [''BEGINDATA'', ''F UTF8 '']) = Inl SliceBoundsOutOfRange
   \<and> ScanValue unq (NewMozScanner [''BEGINDATA'', ''F UTF8 a'']) = Inl SliceBoundsOutOfRange
   \<and> ScanValue unq (NewMozScanner [''BEGINDATA'', ''F MULTILINE'']) = Inl SliceBoundsOutOfRange"
  by (simp add: scan_eval)

text \<open>
  A line of an octal block whose length is not a multiple of four is never decoded to the
  end: the slice of its last group is out of range, unless an earlier group was rejected.
\<close>

lemma mod4_step:
  "(i::nat) + 4 \<le> n \<Longrightarrow> (n - i) mod 4 \<noteq> 0 \<Longrightarrow> (n - (i + 4)) mod 4 \<noteq> 0"
  by presburger

lemma octal_process_short:
  "i \<le> length line \<Longrightarrow> (length line - i) mod 4 \<noteq> 0
     \<Longrightarrow> octal_process i line v \<noteq> Inr (None, v')"
proof (induction i line v rule: octal_process.induct)
  case (1 i line v)
  from "1.prems" have lt: "i < length line" by (cases "i = length line") auto
  show ?case
  proof (cases "slice line (int i + 1) (int i + 4)")
    case (Inl p)
    with lt show ?thesis by (subst octal_process.simps) simp
  next
    case (Inr grp)
    note grp = this
    then have le: "i + 4 \<le> length line" by (auto simp: slice_def split: if_splits)
    show ?thesis
    proof (cases "ParseInt grp 8 16")
      case (Inl e)
      with grp lt show ?thesis by (subst octal_process.simps) simp
    next
      case (Inr k)
      have "(length line - (i + 4)) mod 4 \<noteq> 0" using "1.prems" le by (intro mod4_step)
      with "1.IH"[OF lt grp Inr] le
      have "octal_process (i + 4) line (v @ [char_of k]) \<noteq> Inr (None, v')" by simp
      with lt grp Inr show ?thesis
        by (subst octal_process.simps) simp
    qed
  qed
qed

text \<open>
  C10. The octal decoder is meant to return normally on every block body. On the stream
  \<open>BEGINDATA / F MULTILINE_OCTAL / \10 / END\<close> the only group has three bytes, the slice
  \<open>line[i+1:i+4]\<close> is out of range and \<open>readMultilineOctal\<close>, hence \<open>ScanValue\<close>, panics;
  so it does on \<open>\101\1\<close>, after a first complete group.
\<close>

theorem readMultilineOctal_short_group_panics:
  "readMultilineOctal [CHR 0x5C # ''10'', ''END''] 2 = Inl SliceBoundsOutOfRange
   \<and> readMultilineOctal [CHR 0x5C # ''101'' @ CHR 0x5C # ''1'', ''END''] 2 = Inl SliceBoundsOutOfRange
   \<and> ScanValue unq (NewMozScanner [''BEGINDATA'', ''F MULTILINE_OCTAL'', CHR 0x5C # ''10'', ''END''])
       = Inl SliceBoundsOutOfRange"
  by (simp add: scan_eval)

subsection \<open>A stream without the start sentinel\<close>

lemma skipHeader_loop_absent:
  "''BEGINDATA'' \<notin> set lns \<Longrightarrow> skipHeader_loop lns n = (False, [], n + int (length lns))"
  by (induction lns arbitrary: n) auto

lemma ScanValue_first_absent:
  "''BEGINDATA'' \<notin> set f \<Longrightarrow>
     ScanValue unq (NewMozScanner f) = Inr (False, header_missing (int (length f)))"
  by (simp add: ScanValue_def NewMozScanner_def skipHeader_def skipHeader_loop_absent
      header_missing_def)

lemma ScanValue_again_absent:
  "ScanValue unq (header_missing n) = Inr (False, header_missing n)"
  by (simp add: ScanValue_def skipHeader_def header_missing_def)

lemma ScanValue_times_absent:
  "ScanValue_times unq k (header_missing n) = Inr (replicate k False, header_missing n)"
  by (induction k) (simp_all add: ScanValue_again_absent)

text \<open>
  C6. On a stream with no line equal to \<open>BEGINDATA\<close> the first call of \<open>ScanValue\<close> returns
  false and leaves the error "BEGINDATA line not found" in \<open>valueError\<close>; every later call
  returns false again and leaves the scanner as it was, the error still set and
  \<open>lastValue\<close> still the zero value: no token is ever produced.
\<close>

theorem ScanValue_without_BEGINDATA:
  "''BEGINDATA'' \<notin> set f \<Longrightarrow>
     ScanValue unq (NewMozScanner f) = Inr (False, header_missing (int (length f)))
   \<and> ms_valueError (header_missing (int (length f))) = Some ErrBeginDataNotFound
   \<and> ms_lastValue (header_missing (int (length f))) = zeroValue
   \<and> ScanValue_times unq k (header_missing (int (length f)))
       = Inr (replicate k False, header_missing (int (length f)))"
proof (intro conjI)
  assume "''BEGINDATA'' \<notin> set f"
  then show "ScanValue unq (NewMozScanner f) = Inr (False, header_missing (int (length f)))"
    by (rule ScanValue_first_absent)
  show "ms_valueError (header_missing (int (length f))) = Some ErrBeginDataNotFound"
    by (simp add: header_missing_def)
  show "ms_lastValue (header_missing (int (length f))) = zeroValue"
    by (simp add: header_missing_def)
  show "ScanValue_times unq k (header_missing (int (length f)))
       = Inr (replicate k False, header_missing (int (length f)))"
    by (rule ScanValue_times_absent)
qed

theorem ScanValue_without_BEGINDATA_witness:
  "''BEGINDATA'' \<notin> set [''no begin'', ''line'']
   \<and> ScanValue (\<lambda>_. None) (NewMozScanner [''no begin'', ''line'']) = Inr (False, header_missing 2)
   \<and> ms_valueError (header_missing 2) = Some ErrBeginDataNotFound
   \<and> ScanValue_times (\<lambda>_. None) 3 (header_missing 2)
       = Inr ([False, False, False], header_missing 2)"
proof -
  have h: "''BEGINDATA'' \<notin> set [''no begin'', ''line'']" by simp
  from ScanValue_without_BEGINDATA [OF h, of "\<lambda>_. None" 3] h show ?thesis
    by (simp add: eval_nat_numeral)
qed

subsection \<open>Decoding an encoded octal block\<close>

lemma of_char_octal_digit: "d < 8 \<Longrightarrow> (of_char (octal_digit d) :: int) = 48 + int d"
proof -
  assume "d < 8"
  have "(of_char (char_of (48 + d)) :: nat) = (48 + d) mod 256" by (simp add: of_char_of)
  with \<open>d < 8\<close> have "(of_char (char_of (48 + d)) :: nat) = 48 + d" by simp
  then have "int (of_char (char_of (48 + d))) = int (48 + d)" by (rule arg_cong)
  then have "(of_char (char_of (48 + d)) :: int) = int (48 + d)" by (simp only: of_nat_of_char)
  then show ?thesis by (simp add: octal_digit_def)
qed

lemma digitval_octal_digit: "d < 8 \<Longrightarrow> digitval (octal_digit d) = Some (int d)"
  by (simp add: digitval_def of_char_octal_digit)

lemma octal_digit_not_sign:
  "d < 8 \<Longrightarrow> octal_digit d \<noteq> CHR ''+'' \<and> octal_digit d \<noteq> CHR ''-''"
proof -
  assume d: "d < 8"
  have "(of_char (octal_digit d) :: int) \<noteq> of_char CHR ''+''"
    and "(of_char (octal_digit d) :: int) \<noteq> of_char CHR ''-''"
    using of_char_octal_digit [OF d] by simp_all
  then show ?thesis by auto
qed

lemma ParseInt_digits:
  assumes "a < 4" "b < 8" "c < 8"
  shows "ParseInt [octal_digit a, octal_digit b, octal_digit c] 8 16
           = Inr (int (64 * a + 8 * b + c))"
proof -
  from assms have a8: "a < 8" by simp
  have "ParseUint [octal_digit a, octal_digit b, octal_digit c] 8 16
          = Inr (int (64 * a + 8 * b + c))"
    using assms by (simp add: ParseUint_def digitval_octal_digit a8)
  moreover have "int (64 * a + 8 * b + c) < 2 ^ 15" using assms by simp
  ultimately show ?thesis
    using octal_digit_not_sign [OF a8] by (simp add: ParseInt_def Let_def)
qed

lemma octal_digits_value: "64 * (n div 64) + 8 * (n div 8 mod 8) + n mod 8 = (n::nat)"
proof -
  define q where "q = n div 8 div 8"
  define r where "r = n div 8 mod 8"
  have "8 * q + r = n div 8" unfolding q_def r_def by (simp only: mult_div_mod_eq)
  moreover have "64 * q + 8 * r = 8 * (8 * q + r)" by simp
  moreover have "n div 64 = q" unfolding q_def by (simp add: div_mult2_eq)
  ultimately have "64 * (n div 64) + 8 * (n div 8 mod 8) = 8 * (n div 8)"
    unfolding r_def by simp
  then show ?thesis by (simp only: mult_div_mod_eq)
qed

lemma ParseInt_encode_byte: "ParseInt (tl (encode_byte b)) 8 16 = Inr (of_char b)"
proof -
  define n where "n = (of_char b :: nat)"
  have n: "n < 256" unfolding n_def by (simp add: of_char_def)
  have "n div 64 < 4" "n div 8 mod 8 < 8" "n mod 8 < 8" using n by auto
  from ParseInt_digits [OF this]
  have "ParseInt [octal_digit (n div 64), octal_digit (n div 8 mod 8), octal_digit (n mod 8)] 8 16
          = Inr (int n)"
    by (simp only: octal_digits_value)
  moreover have "tl (encode_byte b)
      = [octal_digit (n div 64), octal_digit (n div 8 mod 8), octal_digit (n mod 8)]"
    by (simp add: encode_byte_def n_def Let_def)
  moreover have "int n = of_char b" unfolding n_def by (simp only: of_nat_of_char)
  ultimately show ?thesis by simp
qed

lemma encode_byte_length: "length (encode_byte b) = 4"
  by (simp add: encode_byte_def Let_def)

lemma encode_byte_shape: "encode_byte b = CHR 0x5C # tl (encode_byte b)"
  by (simp add: encode_byte_def Let_def)

lemma encode_octal_length: "length (encode_octal bs) = 4 * length bs"
  by (induction bs) (simp_all add: encode_octal_def encode_byte_length)

lemma slice_group:
  "slice (pre @ encode_byte b @ suf) (int (length pre) + 1) (int (length pre) + 4)
     = Inr (tl (encode_byte b))"
proof -
  have "drop (Suc (length pre)) (pre @ encode_byte b @ suf) = tl (encode_byte b) @ suf"
    by (subst encode_byte_shape) simp
  moreover have "length (tl (encode_byte b)) = 3" by (simp add: encode_byte_length)
  ultimately show ?thesis
    by (simp add: slice_def encode_byte_length nat_add_distrib)
qed

lemma octal_process_encode:
  "octal_process (length pre) (pre @ encode_octal bs) v = Inr (None, v @ bs)"
proof (induction bs arbitrary: pre v)
  case Nil
  show ?case by (subst octal_process.simps) (simp add: encode_octal_def)
next
  case (Cons b bs)
  have line: "pre @ encode_octal (b # bs) = pre @ encode_byte b @ encode_octal bs"
    by (simp add: encode_octal_def)
  have step: "octal_process (length pre) (pre @ encode_byte b @ encode_octal bs) v
      = octal_process (length pre + 4) (pre @ encode_byte b @ encode_octal bs) (v @ [b])"
    by (subst octal_process.simps) (simp add: slice_group ParseInt_encode_byte encode_byte_length)
  have "octal_process (length (pre @ encode_byte b)) ((pre @ encode_byte b) @ encode_octal bs)
          (v @ [b]) = Inr (None, (v @ [b]) @ bs)"
    by (rule Cons.IH)
  then show ?case by (simp add: line step encode_byte_length)
qed

lemma encode_octal_not_END: "encode_octal bs \<noteq> ''END''"
  by (cases bs) (simp_all add: encode_octal_def encode_byte_def Let_def)

lemma readMultiline_encode:
  "readMultiline (octal_process 0) v (map encode_octal chunks @ ''END'' # rest) n
     = Inr (None, v @ concat chunks, rest, n + int (length chunks) + 1)"
proof (induction chunks arbitrary: v n)
  case Nil
  show ?case by simp
next
  case (Cons c chunks)
  have "octal_process (length ([]::string)) ([] @ encode_octal c) v = Inr (None, v @ c)"
    by (rule octal_process_encode)
  then have "octal_process 0 (encode_octal c) v = Inr (None, v @ c)" by simp
  then show ?case using Cons.IH [of "v @ c" "n + 1"]
    by (simp add: encode_octal_not_END)
qed

lemma readMultilineOctal_encode:
  "readMultilineOctal (map encode_octal chunks @ ''END'' # rest) n
     = Inr (concat chunks, None, rest, n + int (length chunks) + 1)"
  using readMultiline_encode [of "[]" chunks rest n] by (simp add: readMultilineOctal_def)

lemma concat_chunks_of: "0 < k \<Longrightarrow> concat (chunks_of k xs) = xs"
proof (induction k xs rule: chunks_of.induct)
  case (1 k xs)
  show ?case
  proof (cases "xs = []")
    case True
    then show ?thesis by (subst chunks_of.simps) simp
  next
    case False
    with 1 have "concat (chunks_of k (drop k xs)) = drop k xs" by simp
    with False "1.prems" show ?thesis by (subst chunks_of.simps) simp
  qed
qed

lemma length_chunks_of: "c \<in> set (chunks_of k xs) \<Longrightarrow> length c \<le> k"
proof (induction k xs rule: chunks_of.induct)
  case (1 k xs)
  show ?case
  proof (cases "k = 0 \<or> xs = []")
    case True
    with "1.prems" show ?thesis by (subst (asm) chunks_of.simps) simp
  next
    case False
    from "1.prems" have "c \<in> set (take k xs # chunks_of k (drop k xs))"
      by (subst (asm) chunks_of.simps) (simp add: False)
    then have "c = take k xs \<or> c \<in> set (chunks_of k (drop k xs))" by simp
    with "1.IH" [OF False] show ?thesis by auto
  qed
qed

lemma encode_octal_AB: "encode_octal ''AB'' = CHR 0x5C # ''101'' @ CHR 0x5C # ''102''"
  by (simp add: encode_octal_def encode_byte_def octal_digit_def Let_def char_of_def
      bit_Suc_0_iff)

lemma encode_octal_C: "encode_octal ''C'' = CHR 0x5C # ''103''"
  by (simp add: encode_octal_def encode_byte_def octal_digit_def Let_def char_of_def
      bit_Suc_0_iff)

lemma chunks_of_ABC: "chunks_of 2 ''ABC'' = [''AB'', ''C'']"
  by (simp add: chunks_of.simps)

text \<open>
  C8. Encoding is four bytes of text per byte of data. Take any bytes, laid out in lines
  in any way (\<open>chunks\<close> is the list of the byte sequences of the lines), each encoded line
  shorter than \<open>MaxScanTokenSize\<close>, so that the scanner delivers it. Then
  \<open>readMultilineOctal\<close> on the encoded lines followed by \<open>END\<close> returns exactly the bytes,
  in order, and stops after the \<open>END\<close> line; so does \<open>ScanValue\<close>'s loop on a
  \<open>MULTILINE_OCTAL\<close> field holding that block. Every byte sequence \<open>bs\<close> has such a
  layout: with \<open>k\<close> groups on a line, for any \<open>k\<close> from 1 to 16383, the lines are short
  enough and the block decodes to \<open>bs\<close>.
\<close>

theorem readMultilineOctal_decodes_encode_octal:
  assumes "\<forall>c \<in> set chunks. length (encode_octal c) < MaxScanTokenSize"
  shows "length (encode_octal bs) = 4 * length bs
   \<and> readMultilineOctal (map encode_octal chunks @ ''END'' # rest) n
       = Inr (concat chunks, None, rest, n + int (length chunks) + 1)
   \<and> ScanValue_loop unq
         (''CKA_VALUE MULTILINE_OCTAL'' # map encode_octal chunks @ ''END'' # rest) n
       = Inr (Token \<lparr>mv_Field = ''CKA_VALUE'', mv_Type = ''MULTILINE_OCTAL'',
                      mv_Value = concat chunks\<rparr>, rest, n + 1 + int (length chunks) + 1)
   \<and> (0 < k \<and> 4 * k < MaxScanTokenSize \<longrightarrow>
        (\<forall>c \<in> set (chunks_of k bs). length (encode_octal c) < MaxScanTokenSize)
      \<and> readMultilineOctal (map encode_octal (chunks_of k bs) @ ''END'' # rest) n
          = Inr (bs, None, rest, n + int (length (chunks_of k bs)) + 1))"
proof (intro conjI impI ballI)
  show "length (encode_octal bs) = 4 * length bs" by (rule encode_octal_length)
  show "readMultilineOctal (map encode_octal chunks @ ''END'' # rest) n
       = Inr (concat chunks, None, rest, n + int (length chunks) + 1)"
    by (rule readMultilineOctal_encode)
  show "ScanValue_loop unq
         (''CKA_VALUE MULTILINE_OCTAL'' # map encode_octal chunks @ ''END'' # rest) n
       = Inr (Token \<lparr>mv_Field = ''CKA_VALUE'', mv_Type = ''MULTILINE_OCTAL'',
                      mv_Value = concat chunks\<rparr>, rest, n + 1 + int (length chunks) + 1)"
    by (simp add: readMultilineOctal_encode slice_def HasPrefix_def eval_nat_numeral)
next
  fix c
  assume k: "0 < k \<and> 4 * k < MaxScanTokenSize" and c: "c \<in> set (chunks_of k bs)"
  from length_chunks_of [OF c] have "4 * length c \<le> 4 * k" by simp
  with k show "length (encode_octal c) < MaxScanTokenSize" by (simp add: encode_octal_length)
next
  assume k: "0 < k \<and> 4 * k < MaxScanTokenSize"
  then have "concat (chunks_of k bs) = bs" by (simp add: concat_chunks_of)
  with readMultilineOctal_encode [of "chunks_of k bs" rest n]
  show "readMultilineOctal (map encode_octal (chunks_of k bs) @ ''END'' # rest) n
          = Inr (bs, None, rest, n + int (length (chunks_of k bs)) + 1)"
    by simp
qed

theorem readMultilineOctal_decodes_encode_octal_witness:
  "length (encode_octal ''AB'') < MaxScanTokenSize
   \<and> length (encode_octal ''C'') < MaxScanTokenSize
   \<and> (0 < (2::nat) \<and> 4 * (2::nat) < MaxScanTokenSize)
   \<and> chunks_of 2 ''ABC'' = [''AB'', ''C'']
   \<and> readMultilineOctal
        [CHR 0x5C # ''101'' @ CHR 0x5C # ''102'', CHR 0x5C # ''103'', ''END''] 0
        = Inr (''ABC'', None, [], 3)"
proof -
  have h: "\<forall>c \<in> set [''AB'', ''C'']. length (encode_octal c) < MaxScanTokenSize"
    by (simp add: encode_octal_length MaxScanTokenSize_def)
  have k: "0 < (2::nat) \<and> 4 * (2::nat) < MaxScanTokenSize"
    by (simp add: MaxScanTokenSize_def)
  from readMultilineOctal_decodes_encode_octal [OF h, of "''ABC''" "[]" 0 "\<lambda>_. None" 2] k
  have "readMultilineOctal (map encode_octal (chunks_of 2 ''ABC'') @ [''END'']) 0
          = Inr (''ABC'', None, [], 0 + int (length (chunks_of 2 ''ABC'')) + 1)"
    by blast
  then have "readMultilineOctal
        [CHR 0x5C # ''101'' @ CHR 0x5C # ''102'', CHR 0x5C # ''103'', ''END''] 0
        = Inr (''ABC'', None, [], 3)"
    by (simp add: chunks_of_ABC encode_octal_AB encode_octal_C)
  moreover have "length (encode_octal ''AB'') < MaxScanTokenSize"
    and "length (encode_octal ''C'') < MaxScanTokenSize"
    using h by simp_all
  ultimately show ?thesis using k chunks_of_ABC by blast
qed

section \<open>Properties of the object assembler\<close>

lemma ScanObject_lone_class_first:
  "ScanObject unq (NewMozScanner lone_class_input) = Inr (True, lone_class_state)"
  by (simp add: object_eval lone_class_input_def lone_class_state_def)

lemma ScanObject_lone_class_again:
  "ScanObject unq lone_class_state = Inr (True, lone_class_state)"
  by (simp add: object_eval lone_class_state_def)

lemma ReadObjects_loop_lone_class:
  assumes "ReadObjects_loop unq ms objs = Some r"
  shows "ms \<noteq> lone_class_state"
proof (rule ReadObjects_loop.raw_induct
    [where P = "\<lambda>unq ms objs r. ms \<noteq> lone_class_state", OF _ assms])
  fix R :: "(string \<Rightarrow> string option) \<Rightarrow> MozScanner \<Rightarrow> (string \<rightharpoonup> string) list
     \<Rightarrow> (panic + ((string \<rightharpoonup> string) list \<times> MozScanner)) option"
  fix unq ms objs r
  assume IH: "\<And>u scanner objects y. R u scanner objects = Some y \<Longrightarrow> scanner \<noteq> lone_class_state"
    and st: "(case ScanObject unq ms of
                Inl p \<Rightarrow> Some (Inl p)
              | Inr (ok, scanner') \<Rightarrow>
                  if ok then R unq scanner' (objs @ [ms_lastObject scanner'])
                  else Some (Inr (objs, scanner'))) = Some r"
  show "ms \<noteq> lone_class_state"
  proof
    assume "ms = lone_class_state"
    with st ScanObject_lone_class_again [of unq]
    have "R unq lone_class_state (objs @ [ms_lastObject lone_class_state]) = Some r" by simp
    from IH [OF this] show False by simp
  qed
qed

text \<open>
  The sample stream is assembled into its two objects: the second \<open>CKA_CLASS\<close> line seals
  the first object and is the first field of the second, which the end of the stream seals.
\<close>

lemma ReadObjects_sample:
  "ReadObjects (\<lambda>_. None) sample_input
     = Some (Inr (Inr [sample_cert_object, sample_trust_object]))"
  by (simp add: object_eval sample_input_def sample_cert_object_def sample_trust_object_def)

text \<open>
  C7. A final object is meant to be returned exactly once, also when it holds only its
  \<open>CKA_CLASS\<close> field. On the stream \<open>BEGINDATA / CKA_CLASS CK_OBJECT_CLASS CKO_CERTIFICATE\<close>
  the first call of \<open>ScanObject\<close> returns that object; \<open>lastValue\<close> is still the
  \<open>CKA_CLASS\<close> token, so the next call, and every call after it, returns true with the same
  object again, and \<open>ReadObjects\<close> never returns.
\<close>

theorem ScanObject_lone_CLASS_returned_again:
  "ScanObject unq (NewMozScanner lone_class_input) = Inr (True, lone_class_state)
   \<and> ScanObject unq lone_class_state = Inr (True, lone_class_state)
   \<and> ms_lastObject lone_class_state = [''CKA_CLASS'' \<mapsto> ''CKO_CERTIFICATE'']
   \<and> ReadObjects unq lone_class_input = None"
proof -
  have "ReadObjects_loop unq (NewMozScanner lone_class_input) [] = None"
  proof (cases "ReadObjects_loop unq lone_class_state ([] @ [ms_lastObject lone_class_state])")
    case None
    then show ?thesis
      by (subst ReadObjects_loop.simps) (simp add: ScanObject_lone_class_first)
  next
    case (Some r)
    from ReadObjects_loop_lone_class [OF this] show ?thesis by simp
  qed
  then have "ReadObjects unq lone_class_input = None" by (simp add: ReadObjects_def)
  moreover have "ms_lastObject lone_class_state = [''CKA_CLASS'' \<mapsto> ''CKO_CERTIFICATE'']"
    by (simp add: lone_class_state_def)
  ultimately show ?thesis
    using ScanObject_lone_class_first [of unq] ScanObject_lone_class_again [of unq] by simp
qed

section \<open>Properties of the trust resolver and the extractor\<close>

lemma findTrusted_loop_Cons:
  "findTrusted_loop (obj # objects) trusted =
     (case trust_step obj trusted of Inl err \<Rightarrow> Inl err | Inr t \<Rightarrow> findTrusted_loop objects t)"
  by (simp add: trust_step_def Let_def)

lemma findTrusted_loop_append:
  "findTrusted_loop (xs @ ys) trusted =
     (case findTrusted_loop xs trusted of Inl err \<Rightarrow> Inl err | Inr t \<Rightarrow> findTrusted_loop ys t)"
proof (induction xs arbitrary: trusted)
  case Nil
  show ?case by simp
next
  case (Cons x xs)
  show ?case by (simp only: append_Cons findTrusted_loop_Cons Cons.IH split: sum.splits) simp
qed

lemma contains_knownTrustLevels:
  "contains v knownTrustLevels \<longleftrightarrow>
     v \<in> {''CKT_NSS_TRUSTED_DELEGATOR'', ''CKT_NSS_MUST_VERIFY_TRUST'', ''CKT_NSS_NOT_TRUSTED''}"
  by (auto simp: knownTrustLevels_def)

lemma trust_step_entry:
  "trust_step obj trusted = Inr t' \<Longrightarrow> t' l = Some t \<Longrightarrow> trusted l = Some t \<or> has_purpose t"
  by (auto simp: trust_step_def Let_def has_purpose_def split: if_splits)

lemma trust_step_veto:
  "lookup obj ''CKA_CLASS'' = ''CKO_NSS_TRUST'' \<Longrightarrow>
   lookup obj ''CKA_TRUST_SERVER_AUTH'' = ''CKT_NSS_NOT_TRUSTED''
     \<or> lookup obj ''CKA_TRUST_EMAIL_PROTECTION'' = ''CKT_NSS_NOT_TRUSTED''
     \<or> lookup obj ''CKA_TRUST_CODE_SIGNING'' = ''CKT_NSS_NOT_TRUSTED'' \<Longrightarrow>
   trust_step obj trusted = Inr t' \<Longrightarrow> t' = trusted"
  by (auto simp: trust_step_def Let_def split: if_splits)

lemma trust_step_origin:
  "trust_step obj trusted = Inr t' \<Longrightarrow> t' l = Some t \<Longrightarrow>
     trusted l = Some t
     \<or> (lookup obj ''CKA_CLASS'' = ''CKO_NSS_TRUST'' \<and> lookup obj ''CKA_LABEL'' = l)"
  by (auto simp: trust_step_def Let_def split: if_splits)

lemma findTrusted_loop_purpose:
  "findTrusted_loop objects trusted = Inr m \<Longrightarrow> (\<And>l t. trusted l = Some t \<Longrightarrow> has_purpose t)
     \<Longrightarrow> m l = Some t \<Longrightarrow> has_purpose t"
proof (induction objects arbitrary: trusted)
  case Nil
  then show ?case by simp
next
  case (Cons obj objects)
  from Cons.prems(1) obtain trusted' where
    st: "trust_step obj trusted = Inr trusted'" and step: "findTrusted_loop objects trusted' = Inr m"
    by (auto simp only: findTrusted_loop_Cons split: sum.splits)
  have "\<And>l t. trusted' l = Some t \<Longrightarrow> has_purpose t"
    using trust_step_entry [OF st] Cons.prems(2) by blast
  from Cons.IH [OF step this Cons.prems(3)] show ?case .
qed

lemma findTrusted_purpose: "findTrusted objects = Inr m \<Longrightarrow> m l = Some t \<Longrightarrow> has_purpose t"
  unfolding findTrusted_def by (erule findTrusted_loop_purpose) simp_all

lemma findTrusted_loop_origin:
  "findTrusted_loop objects trusted = Inr m \<Longrightarrow> m l = Some t \<Longrightarrow>
     trusted l \<noteq> None
     \<or> (\<exists>obj \<in> set objects.
          lookup obj ''CKA_CLASS'' = ''CKO_NSS_TRUST'' \<and> lookup obj ''CKA_LABEL'' = l)"
proof (induction objects arbitrary: trusted)
  case Nil
  then show ?case by simp
next
  case (Cons obj objects)
  from Cons.prems(1) obtain trusted' where
    st: "trust_step obj trusted = Inr trusted'" and step: "findTrusted_loop objects trusted' = Inr m"
    by (auto simp only: findTrusted_loop_Cons split: sum.splits)
  from Cons.IH [OF step Cons.prems(2)] trust_step_origin [OF st] show ?case by fastforce
qed

text \<open>
  C2. Take a trust declaration with \<open>CKT_NSS_NOT_TRUSTED\<close> in one of its three trust fields,
  anywhere in an object list on which \<open>findTrusted\<close> succeeds. The trust map is the one
  \<open>findTrusted\<close> returns on the list without that declaration, whatever the declaration's
  other fields are; so if no other trust declaration of the list has its label, the map has
  no entry for the label.
\<close>

theorem findTrusted_not_trusted_vetoes:
  assumes "lookup obj ''CKA_CLASS'' = ''CKO_NSS_TRUST''"
    and "lookup obj ''CKA_TRUST_SERVER_AUTH'' = ''CKT_NSS_NOT_TRUSTED''
          \<or> lookup obj ''CKA_TRUST_EMAIL_PROTECTION'' = ''CKT_NSS_NOT_TRUSTED''
          \<or> lookup obj ''CKA_TRUST_CODE_SIGNING'' = ''CKT_NSS_NOT_TRUSTED''"
    and "findTrusted (xs @ obj # ys) = Inr trusted"
  shows "findTrusted (xs @ ys) = Inr trusted
       \<and> ((\<forall>other \<in> set (xs @ ys). lookup other ''CKA_CLASS'' = ''CKO_NSS_TRUST''
              \<longrightarrow> lookup other ''CKA_LABEL'' \<noteq> lookup obj ''CKA_LABEL'')
            \<longrightarrow> trusted (lookup obj ''CKA_LABEL'') = None)"
proof -
  from assms(3) obtain t1 t2 where
    xs: "findTrusted_loop xs Map.empty = Inr t1" and st: "trust_step obj t1 = Inr t2"
    and ys: "findTrusted_loop ys t2 = Inr trusted"
    by (auto simp: findTrusted_def findTrusted_loop_append findTrusted_loop_Cons
        simp del: findTrusted_loop.simps split: sum.splits)
  from trust_step_veto [OF assms(1,2) st] have "t2 = t1" .
  with xs ys have same: "findTrusted (xs @ ys) = Inr trusted"
    by (simp add: findTrusted_def findTrusted_loop_append)
  have "trusted (lookup obj ''CKA_LABEL'') = None"
    if "\<forall>other \<in> set (xs @ ys). lookup other ''CKA_CLASS'' = ''CKO_NSS_TRUST''
              \<longrightarrow> lookup other ''CKA_LABEL'' \<noteq> lookup obj ''CKA_LABEL''"
  proof (cases "trusted (lookup obj ''CKA_LABEL'')")
    case None
    then show ?thesis .
  next
    case (Some t)
    from findTrusted_loop_origin [OF same [unfolded findTrusted_def] Some] that
    show ?thesis by auto
  qed
  with same show ?thesis by blast
qed

theorem findTrusted_not_trusted_vetoes_witness:
  "lookup vetoed_trust_object ''CKA_CLASS'' = ''CKO_NSS_TRUST''
   \<and> lookup vetoed_trust_object ''CKA_TRUST_SERVER_AUTH'' = ''CKT_NSS_TRUSTED_DELEGATOR''
   \<and> lookup vetoed_trust_object ''CKA_TRUST_EMAIL_PROTECTION'' = ''CKT_NSS_NOT_TRUSTED''
   \<and> findTrusted ([sample_cert_object] @ vetoed_trust_object # [sample_trust_object])
       = Inr [''x'' \<mapsto> sample_trust]
   \<and> findTrusted ([sample_cert_object] @ [sample_trust_object]) = Inr [''x'' \<mapsto> sample_trust]
   \<and> [''x'' \<mapsto> sample_trust] (lookup vetoed_trust_object ''CKA_LABEL'') = None"
proof -
  have cls: "lookup vetoed_trust_object ''CKA_CLASS'' = ''CKO_NSS_TRUST''"
    by (simp add: lookup_def vetoed_trust_object_def)
  have srv: "lookup vetoed_trust_object ''CKA_TRUST_SERVER_AUTH'' = ''CKT_NSS_TRUSTED_DELEGATOR''"
    by (simp add: lookup_def vetoed_trust_object_def)
  have eml: "lookup vetoed_trust_object ''CKA_TRUST_EMAIL_PROTECTION'' = ''CKT_NSS_NOT_TRUSTED''"
    by (simp add: lookup_def vetoed_trust_object_def)
  have veto: "lookup vetoed_trust_object ''CKA_TRUST_SERVER_AUTH'' = ''CKT_NSS_NOT_TRUSTED''
          \<or> lookup vetoed_trust_object ''CKA_TRUST_EMAIL_PROTECTION'' = ''CKT_NSS_NOT_TRUSTED''
          \<or> lookup vetoed_trust_object ''CKA_TRUST_CODE_SIGNING'' = ''CKT_NSS_NOT_TRUSTED''"
    using eml by simp
  have run: "findTrusted ([sample_cert_object] @ vetoed_trust_object # [sample_trust_object])
      = Inr [''x'' \<mapsto> sample_trust]"
    by (simp add: trust_eval sample_cert_object_def sample_trust_object_def
        vetoed_trust_object_def sample_trust_def)
  have others: "\<forall>other \<in> set ([sample_cert_object] @ [sample_trust_object]).
      lookup other ''CKA_CLASS'' = ''CKO_NSS_TRUST''
        \<longrightarrow> lookup other ''CKA_LABEL'' \<noteq> lookup vetoed_trust_object ''CKA_LABEL''"
    by (simp add: lookup_def sample_cert_object_def sample_trust_object_def
        vetoed_trust_object_def)
  from findTrusted_not_trusted_vetoes [OF cls veto run] others cls srv eml run
  show ?thesis by blast
qed

text \<open>
  C3. If an object list holds a trust declaration one of whose three trust fields is
  outside the vocabulary \<open>CKT_NSS_TRUSTED_DELEGATOR\<close>, \<open>CKT_NSS_MUST_VERIFY_TRUST\<close>,
  \<open>CKT_NSS_NOT_TRUSTED\<close>, then \<open>findTrusted\<close> returns an error, and \<open>ReadTrustedCerts\<close> on a
  stream that \<open>ReadObjects\<close> reads as that list returns that error and no certificates.
\<close>

theorem findTrusted_unknown_trust_level_fails:
  assumes "obj \<in> set objects" and "lookup obj ''CKA_CLASS'' = ''CKO_NSS_TRUST''"
    and "lookup obj ''CKA_TRUST_SERVER_AUTH'' \<notin>
            {''CKT_NSS_TRUSTED_DELEGATOR'', ''CKT_NSS_MUST_VERIFY_TRUST'', ''CKT_NSS_NOT_TRUSTED''}
       \<or> lookup obj ''CKA_TRUST_EMAIL_PROTECTION'' \<notin>
            {''CKT_NSS_TRUSTED_DELEGATOR'', ''CKT_NSS_MUST_VERIFY_TRUST'', ''CKT_NSS_NOT_TRUSTED''}
       \<or> lookup obj ''CKA_TRUST_CODE_SIGNING'' \<notin>
            {''CKT_NSS_TRUSTED_DELEGATOR'', ''CKT_NSS_MUST_VERIFY_TRUST'', ''CKT_NSS_NOT_TRUSTED''}"
  shows "\<exists>err. findTrusted objects = Inl err
           \<and> (ReadObjects unq f = Some (Inr (Inr objects))
                \<longrightarrow> ReadTrustedCerts unq ParseCertificate f = Some (Inr (Inl err)))"
proof -
  have bad: "\<exists>err. trust_step obj trusted = Inl err" for trusted
    using assms(2,3) unfolding contains_knownTrustLevels [symmetric]
    by (auto simp: trust_step_def Let_def)
  have "\<exists>err. findTrusted_loop objects trusted = Inl err" for trusted
    using assms(1)
  proof (induction objects arbitrary: trusted)
    case Nil
    then show ?case by simp
  next
    case (Cons x objects)
    show ?case
    proof (cases "trust_step x trusted")
      case (Inl err)
      then show ?thesis by (simp add: findTrusted_loop_Cons del: findTrusted_loop.simps)
    next
      case (Inr t')
      with bad [of trusted] have "x \<noteq> obj" by auto
      with Cons.prems have "obj \<in> set objects" by simp
      from Cons.IH [OF this, of t'] Inr show ?thesis
        by (simp add: findTrusted_loop_Cons del: findTrusted_loop.simps)
    qed
  qed
  then obtain err where "findTrusted objects = Inl err" unfolding findTrusted_def by blast
  then show ?thesis by (auto simp: ReadTrustedCerts_def)
qed

theorem findTrusted_unknown_trust_level_fails_witness:
  "unknown_trust_object \<in> set [sample_cert_object, unknown_trust_object]
   \<and> lookup unknown_trust_object ''CKA_CLASS'' = ''CKO_NSS_TRUST''
   \<and> lookup unknown_trust_object ''CKA_TRUST_SERVER_AUTH'' \<notin>
        {''CKT_NSS_TRUSTED_DELEGATOR'', ''CKT_NSS_MUST_VERIFY_TRUST'', ''CKT_NSS_NOT_TRUSTED''}
   \<and> findTrusted [sample_cert_object, unknown_trust_object]
        = Inl (ErrUnknownTrustLevel ''CKT_NSS_TRUSTED'')
   \<and> ReadObjects (\<lambda>_. None) unknown_trust_input = Some (Inr (Inr [unknown_trust_object]))
   \<and> ReadTrustedCerts (\<lambda>_. None) sample_parse unknown_trust_input
        = Some (Inr (Inl (ErrUnknownTrustLevel ''CKT_NSS_TRUSTED'')))"
proof -
  have cls: "lookup unknown_trust_object ''CKA_CLASS'' = ''CKO_NSS_TRUST''"
    by (simp add: lookup_def unknown_trust_object_def)
  have srv: "lookup unknown_trust_object ''CKA_TRUST_SERVER_AUTH'' \<notin>
        {''CKT_NSS_TRUSTED_DELEGATOR'', ''CKT_NSS_MUST_VERIFY_TRUST'', ''CKT_NSS_NOT_TRUSTED''}"
    by (simp add: lookup_def unknown_trust_object_def)
  then have bad: "lookup unknown_trust_object ''CKA_TRUST_SERVER_AUTH'' \<notin>
            {''CKT_NSS_TRUSTED_DELEGATOR'', ''CKT_NSS_MUST_VERIFY_TRUST'', ''CKT_NSS_NOT_TRUSTED''}
       \<or> lookup unknown_trust_object ''CKA_TRUST_EMAIL_PROTECTION'' \<notin>
            {''CKT_NSS_TRUSTED_DELEGATOR'', ''CKT_NSS_MUST_VERIFY_TRUST'', ''CKT_NSS_NOT_TRUSTED''}
       \<or> lookup unknown_trust_object ''CKA_TRUST_CODE_SIGNING'' \<notin>
            {''CKT_NSS_TRUSTED_DELEGATOR'', ''CKT_NSS_MUST_VERIFY_TRUST'', ''CKT_NSS_NOT_TRUSTED''}"
    by (rule disjI1)
  have mem2: "unknown_trust_object \<in> set [sample_cert_object, unknown_trust_object]" by simp
  have mem1: "unknown_trust_object \<in> set [unknown_trust_object]" by simp
  have ft2: "findTrusted [sample_cert_object, unknown_trust_object]
      = Inl (ErrUnknownTrustLevel ''CKT_NSS_TRUSTED'')"
    by (simp add: trust_eval sample_cert_object_def unknown_trust_object_def)
  have ft1: "findTrusted [unknown_trust_object] = Inl (ErrUnknownTrustLevel ''CKT_NSS_TRUSTED'')"
    by (simp add: trust_eval unknown_trust_object_def)
  have ro: "ReadObjects (\<lambda>_. None) unknown_trust_input = Some (Inr (Inr [unknown_trust_object]))"
    by (simp add: object_eval unknown_trust_input_def unknown_trust_object_def)
  from findTrusted_unknown_trust_level_fails
         [OF mem1 cls bad, of "\<lambda>_. None" unknown_trust_input sample_parse] ro ft1
  have "ReadTrustedCerts (\<lambda>_. None) sample_parse unknown_trust_input
        = Some (Inr (Inl (ErrUnknownTrustLevel ''CKT_NSS_TRUSTED'')))"
    by auto
  with mem2 cls srv ft2 ro show ?thesis by blast
qed

lemma ReadTrustedCerts_loop_extracted:
  "c \<in> set (ReadTrustedCerts_loop P trusted objects certs) \<Longrightarrow>
     c \<in> set certs \<or> extracted P trusted objects c"
proof (induction objects arbitrary: certs)
  case Nil
  then show ?case by simp
next
  case (Cons obj objects)
  have mono: "extracted P trusted objects c \<Longrightarrow> extracted P trusted (obj # objects) c"
    by (auto simp: extracted_def)
  show ?case
  proof (cases "lookup obj ''CKA_CLASS'' \<noteq> ''CKO_CERTIFICATE''")
    case True
    with Cons.prems have "c \<in> set (ReadTrustedCerts_loop P trusted objects certs)" by simp
    from Cons.IH [OF this] mono show ?thesis by blast
  next
    case cls: False
    show ?thesis
    proof (cases "trusted (lookup obj ''CKA_LABEL'')")
      case None
      with cls Cons.prems have "c \<in> set (ReadTrustedCerts_loop P trusted objects certs)"
        by simp
      from Cons.IH [OF this] mono show ?thesis by blast
    next
      case (Some trust)
      show ?thesis
      proof (cases "P (lookup obj ''CKA_VALUE'')")
        case (Inl err)
        with cls Some Cons.prems
        have "c \<in> set (ReadTrustedCerts_loop P trusted objects certs)" by simp
        from Cons.IH [OF this] mono show ?thesis by blast
      next
        case (Inr cert)
        define new where
          "new = \<lparr>c_Label = lookup obj ''CKA_LABEL'', c_Data = lookup obj ''CKA_VALUE'',
                  c_Trust = trust, c_Cert = Some cert\<rparr>"
        from cls Some Inr Cons.prems
        have "c \<in> set (ReadTrustedCerts_loop P trusted objects (certs @ [new]))"
          by (simp add: new_def)
        from Cons.IH [OF this]
        have "c \<in> set certs \<or> c = new \<or> extracted P trusted objects c" by auto
        moreover have "extracted P trusted (obj # objects) new"
          using cls Some Inr by (auto simp: extracted_def new_def)
        ultimately show ?thesis using mono by blast
      qed
    qed
  qed
qed

lemma ReadTrustedCerts_sample:
  "ReadTrustedCerts (\<lambda>_. None) sample_parse sample_input = Some (Inr (Inr [sample_cert]))"
  by (simp add: ReadTrustedCerts_def ReadObjects_sample)
     (simp add: trust_eval sample_cert_object_def sample_trust_object_def sample_parse_def
        sample_cert_def sample_trust_def)

text \<open>
  C1. Every record of the list that \<open>ReadTrustedCerts\<close> returns comes from a certificate
  object of the stream: its \<open>Cert\<close> is not nil, it is the certificate that
  \<open>ParseCertificate\<close> returned, without error, for the object's \<open>CKA_VALUE\<close>, and its
  \<open>Trust\<close>, the trust map's entry for the object's label, has at least one of its three
  booleans set.
\<close>

theorem ReadTrustedCerts_records_parsed_and_trusted:
  assumes "ReadTrustedCerts unq ParseCertificate f = Some (Inr (Inr certs))"
    and "c \<in> set certs"
  shows "c_Cert c \<noteq> None
       \<and> (\<exists>objects trusted obj cert.
             ReadObjects unq f = Some (Inr (Inr objects)) \<and> findTrusted objects = Inr trusted
           \<and> obj \<in> set objects \<and> lookup obj ''CKA_CLASS'' = ''CKO_CERTIFICATE''
           \<and> c_Label c = lookup obj ''CKA_LABEL'' \<and> c_Data c = lookup obj ''CKA_VALUE''
           \<and> ParseCertificate (lookup obj ''CKA_VALUE'') = Inr cert \<and> c_Cert c = Some cert
           \<and> trusted (c_Label c) = Some (c_Trust c))
       \<and> (ServerTrustedDelegator (c_Trust c) \<or> EmailTrustedDelegator (c_Trust c)
            \<or> CodeTrustedDelegator (c_Trust c))"
proof -
  from assms(1) obtain objects trusted where
    ro: "ReadObjects unq f = Some (Inr (Inr objects))" and ft: "findTrusted objects = Inr trusted"
    and certs: "certs = ReadTrustedCerts_loop ParseCertificate trusted objects []"
    by (auto simp: ReadTrustedCerts_def split: option.splits sum.splits)
  from assms(2) certs
    ReadTrustedCerts_loop_extracted [of c ParseCertificate trusted objects "[]"]
  have "extracted ParseCertificate trusted objects c" by simp
  then obtain obj cert where
    ex: "obj \<in> set objects" "lookup obj ''CKA_CLASS'' = ''CKO_CERTIFICATE''"
      "c_Label c = lookup obj ''CKA_LABEL''" "c_Data c = lookup obj ''CKA_VALUE''"
      "ParseCertificate (lookup obj ''CKA_VALUE'') = Inr cert" "c_Cert c = Some cert"
      "trusted (lookup obj ''CKA_LABEL'') = Some (c_Trust c)"
    unfolding extracted_def by blast
  from findTrusted_purpose [OF ft ex(7)]
  have "ServerTrustedDelegator (c_Trust c) \<or> EmailTrustedDelegator (c_Trust c)
          \<or> CodeTrustedDelegator (c_Trust c)"
    by (simp add: has_purpose_def)
  with ro ft ex show ?thesis by auto
qed

theorem ReadTrustedCerts_records_parsed_and_trusted_witness:
  "ReadTrustedCerts (\<lambda>_. None) sample_parse sample_input = Some (Inr (Inr [sample_cert]))
   \<and> sample_cert \<in> set [sample_cert]
   \<and> c_Cert sample_cert \<noteq> None
   \<and> (\<exists>obj cert. lookup obj ''CKA_CLASS'' = ''CKO_CERTIFICATE''
         \<and> c_Data sample_cert = lookup obj ''CKA_VALUE''
         \<and> sample_parse (lookup obj ''CKA_VALUE'') = Inr cert \<and> c_Cert sample_cert = Some cert)
   \<and> (ServerTrustedDelegator (c_Trust sample_cert) \<or> EmailTrustedDelegator (c_Trust sample_cert)
        \<or> CodeTrustedDelegator (c_Trust sample_cert))"
proof -
  have mem: "sample_cert \<in> set [sample_cert]" by simp
  from ReadTrustedCerts_records_parsed_and_trusted [OF ReadTrustedCerts_sample mem]
    ReadTrustedCerts_sample mem
  show ?thesis by blast
qed

end
